theory Spec2Isabelle
  imports Main "HOL-Library.Sublist" "HOL-Library.Multiset"
begin

section \<open>String primitives of the host language\<close>

text \<open>
  The parser and serializer of PipeAndCaret are written against the string methods of
  JavaScript. A string is modelled as a \<^typ>\<open>string\<close>, one \<^typ>\<open>char\<close> per code unit
  (code units below 256). Every delimiter of the source has type \<^verbatim>\<open>string\<close>, so the
  delimiters are strings here too; the delimiter resolver only ever produces strings of
  length one.
\<close>

abbreviation CR :: char where "CR \<equiv> CHR 0x0D"
abbreviation LF :: char where "LF \<equiv> CHR 0x0A"

text \<open>\<^verbatim>\<open>s.startsWith(p)\<close>.\<close>

definition startsWith :: "string \<Rightarrow> string \<Rightarrow> bool" where
  "startsWith s p = prefix p s"

text \<open>
  \<^verbatim>\<open>s.split(sep)\<close> with a string separator and no limit. An empty separator cuts the
  string into its code units (and the empty string into no piece at all); otherwise the
  occurrences of the separator are found from left to right, without overlap, and the
  empty string gives one empty piece.
\<close>

function split_nonempty :: "string \<Rightarrow> string \<Rightarrow> string \<Rightarrow> string list" where
  "split_nonempty sep acc [] = [acc]"
| "split_nonempty sep acc (c # cs) =
     (if sep \<noteq> [] \<and> prefix sep (c # cs)
      then acc # split_nonempty sep [] (drop (length sep) (c # cs))
      else split_nonempty sep (acc @ [c]) cs)"
  by pat_completeness auto
termination
  by (relation "measure (\<lambda>(sep, acc, s). length s)") (auto simp: Suc_le_eq)

definition split :: "string \<Rightarrow> string \<Rightarrow> string list" where
  "split s sep = (if sep = [] then map (\<lambda>c. [c]) s else split_nonempty sep [] s)"

text \<open>\<^verbatim>\<open>xs.join(sep)\<close> on an array of strings.\<close>

fun join :: "string list \<Rightarrow> string \<Rightarrow> string" where
  "join [] sep = []"
| "join [x] sep = x"
| "join (x # y # ys) sep = x @ sep @ join (y # ys) sep"

text \<open>
  \<^verbatim>\<open>s.indexOf(needle, position)\<close>: the least index not below the position at which the
  needle occurs, and \<open>-1\<close> when there is none.
\<close>

fun index_from :: "string \<Rightarrow> string \<Rightarrow> nat \<Rightarrow> int" where
  "index_from needle [] k = (if needle = [] then int k else - 1)"
| "index_from needle (c # cs) k =
     (if prefix needle (c # cs) then int k else index_from needle cs (Suc k))"

definition indexOf :: "string \<Rightarrow> string \<Rightarrow> nat \<Rightarrow> int" where
  "indexOf s needle pos = index_from needle (drop pos s) (min pos (length s))"

text \<open>
  \<^verbatim>\<open>s.substring(start, end)\<close>: both arguments are clamped to the range from 0 to the
  length of the string, and they are swapped when the start is greater than the end.
  \<^verbatim>\<open>s.substring(start)\<close> runs to the end of the string.
\<close>

definition substring :: "string \<Rightarrow> int \<Rightarrow> int \<Rightarrow> string" where
  "substring s start end =
     (let n = int (length s);
          a = max 0 (min start n);
          b = max 0 (min end n);
          lo = min a b;
          hi = max a b
      in take (nat (hi - lo)) (drop (nat lo) s))"

definition substring_from :: "string \<Rightarrow> int \<Rightarrow> string" where
  "substring_from s start = substring s start (int (length s))"

text \<open>
  \<^verbatim>\<open>s.trim()\<close> removes white space and line terminators from both ends. Among the code
  units below 256 these are tab, line feed, vertical tab, form feed, carriage return,
  space and the no-break space.
\<close>

definition isWhiteSpace :: "char \<Rightarrow> bool" where
  "isWhiteSpace c \<longleftrightarrow>
     c \<in> {CHR 0x09, CHR 0x0A, CHR 0x0B, CHR 0x0C, CHR 0x0D, CHR 0x20, CHR 0xA0}"

definition trim :: "string \<Rightarrow> string" where
  "trim s = rev (dropWhile isWhiteSpace (rev (dropWhile isWhiteSpace s)))"

section \<open>Data model\<close>

text \<open>
  The interfaces of \<^verbatim>\<open>src/app/types.ts\<close>. A field index is a whole number. The member
  \<^verbatim>\<open>fields\<close> of a segment is called \<open>segFields\<close>, since the record package keeps the
  name \<open>fields\<close> for itself.
\<close>

record HL7Delimiters =
  segment :: string
  field :: string
  repeat :: string
  component :: string
  subcomponent :: string
  escape :: string

record SubcomponentNode =
  "value" :: string

record ComponentNode =
  subcomponents :: "SubcomponentNode list"

record RepeatNode =
  components :: "ComponentNode list"

record FieldNode =
  index :: int
  repeats :: "RepeatNode list"

record SegmentNode =
  name :: string
  segFields :: "FieldNode list"

record HL7Message =
  delimiters :: HL7Delimiters
  segments :: "SegmentNode list"

record ParseError =
  message :: string
  segmentIndex :: "nat option"
  segmentName :: "string option"
  fieldIndex :: "int option"
  snippet :: "string option"

section \<open>Parser\<close>

text \<open>
  \<^verbatim>\<open>normalizeLineEndings\<close>: the global replacement of \<^verbatim>\<open>\r\n\<close> by \<^verbatim>\<open>\r\<close>, from left to
  right, and then of every remaining \<^verbatim>\<open>\n\<close> by \<^verbatim>\<open>\r\<close>.
\<close>

fun replace_crlf :: "string \<Rightarrow> string" where
  "replace_crlf (c # e # cs) =
     (if c = CR \<and> e = LF then CR # replace_crlf cs else c # replace_crlf (e # cs))"
| "replace_crlf cs = cs"

definition replace_lf :: "string \<Rightarrow> string" where
  "replace_lf s = map (\<lambda>c. if c = LF then CR else c) s"

definition normalizeLineEndings :: "string \<Rightarrow> string" where
  "normalizeLineEndings input = replace_lf (replace_crlf input)"

text \<open>
  \<^verbatim>\<open>encodingChars[i] || dflt\<close>: the code unit at position \<open>i\<close> as a string of length one,
  and the default when the position is past the end.
\<close>

definition charOr :: "string \<Rightarrow> nat \<Rightarrow> string \<Rightarrow> string" where
  "charOr s i dflt = (if i < length s then [s ! i] else dflt)"

text \<open>
  \<^verbatim>\<open>extractDelimiters\<close>. The end of the encoding characters is
  \<^verbatim>\<open>mshLine.indexOf(fieldDelim, 4)\<close>, passed to \<^verbatim>\<open>substring\<close> as it is, also when it is
  \<open>-1\<close>.
\<close>

definition extractDelimiters :: "string \<Rightarrow> HL7Delimiters option" where
  "extractDelimiters mshLine =
     (if \<not> startsWith mshLine ''MSH'' \<or> length mshLine < 8 then None
      else
        let fieldDelim = [mshLine ! 3];
            encodingChars = substring mshLine 4 (indexOf mshLine fieldDelim 4)
        in if length encodingChars < 4
           then Some \<lparr>segment = [CR], field = fieldDelim,
                  repeat = charOr encodingChars 1 ''~'',
                  component = charOr encodingChars 0 ''^'',
                  subcomponent = charOr encodingChars 3 ''&'',
                  escape = charOr encodingChars 2 [CHR 0x5C]\<rparr>
           else Some \<lparr>segment = [CR], field = fieldDelim,
                  repeat = [encodingChars ! 1],
                  component = [encodingChars ! 0],
                  subcomponent = [encodingChars ! 3],
                  escape = [encodingChars ! 2]\<rparr>)"

text \<open>\<^verbatim>\<open>parseField\<close>: the three nested loops over the pieces of the three splits.\<close>

definition parseField :: "string \<Rightarrow> HL7Delimiters \<Rightarrow> int \<Rightarrow> FieldNode" where
  "parseField fieldString d fieldIdx =
     \<lparr>index = fieldIdx,
      repeats = map (\<lambda>repeatStr.
        \<lparr>components = map (\<lambda>componentStr.
          \<lparr>subcomponents = map (\<lambda>subStr. \<lparr>value = subStr\<rparr>)
             (split componentStr (subcomponent d))\<rparr>)
          (split repeatStr (component d))\<rparr>)
        (split fieldString (repeat d))\<rparr>"

text \<open>
  The loop \<^verbatim>\<open>for (i ...) fields.push(parseField(parts[i], delimiters, i + k))\<close> of both
  segment parsers: the pieces are numbered upwards from a first index.
\<close>

fun parseFieldsFrom :: "HL7Delimiters \<Rightarrow> int \<Rightarrow> string list \<Rightarrow> FieldNode list" where
  "parseFieldsFrom d k [] = []"
| "parseFieldsFrom d k (p # ps) = parseField p d k # parseFieldsFrom d (k + 1) ps"

definition parseMSHSegment :: "string \<Rightarrow> HL7Delimiters \<Rightarrow> SegmentNode" where
  "parseMSHSegment mshLine d =
     (let afterDelim = substring_from mshLine 4;
          firstDelimPos = indexOf afterDelim (field d) 0;
          encodingChars =
            (if firstDelimPos \<ge> 0 then substring afterDelim 0 firstDelimPos else afterDelim);
          msh1 = \<lparr>index = 1,
                  repeats = [\<lparr>components = [\<lparr>subcomponents = [\<lparr>value = field d\<rparr>]\<rparr>]\<rparr>]\<rparr>;
          msh2 = \<lparr>index = 2,
                  repeats = [\<lparr>components = [\<lparr>subcomponents = [\<lparr>value = encodingChars\<rparr>]\<rparr>]\<rparr>]\<rparr>
      in \<lparr>name = ''MSH'',
          segFields = [msh1, msh2] @
            (if firstDelimPos \<ge> 0
             then parseFieldsFrom d 3
                    (split (substring_from afterDelim (firstDelimPos + 1)) (field d))
             else [])\<rparr>)"

text \<open>The test \<^verbatim>\<open>/^[A-Z][A-Z0-9]{2}$/\<close> of a segment name.\<close>

definition isUpper :: "char \<Rightarrow> bool" where
  "isUpper c \<longleftrightarrow> 65 \<le> (of_char c :: nat) \<and> (of_char c :: nat) \<le> 90"

definition isDigit :: "char \<Rightarrow> bool" where
  "isDigit c \<longleftrightarrow> 48 \<le> (of_char c :: nat) \<and> (of_char c :: nat) \<le> 57"

fun validSegmentName :: "string \<Rightarrow> bool" where
  "validSegmentName [a, b, c] \<longleftrightarrow>
     isUpper a \<and> (isUpper b \<or> isDigit b) \<and> (isUpper c \<or> isDigit c)"
| "validSegmentName _ \<longleftrightarrow> False"

definition parseSegment :: "string \<Rightarrow> HL7Delimiters \<Rightarrow> nat \<Rightarrow> ParseError + SegmentNode" where
  "parseSegment segmentLine d segIdx =
     (let parts = split segmentLine (field d) in
      if parts = [] \<or> hd parts = []
      then Inl \<lparr>message = ''Empty or invalid segment'',
                segmentIndex = Some segIdx, segmentName = None, fieldIndex = None,
                snippet = Some (substring segmentLine 0 50)\<rparr>
      else
        let nm = hd parts in
        if \<not> validSegmentName nm
        then Inl \<lparr>message = ''Invalid segment name: '' @ [CHR 0x22] @ nm @ [CHR 0x22],
                  segmentIndex = Some segIdx, segmentName = Some nm, fieldIndex = None,
                  snippet = Some (substring segmentLine 0 50)\<rparr>
        else Inr \<lparr>name = nm, segFields = parseFieldsFrom d 1 (tl parts)\<rparr>)"

text \<open>
  The loop of \<^verbatim>\<open>parseHL7\<close> over the lines after the header: it returns the error of the
  first line that \<^verbatim>\<open>parseSegment\<close> rejects.
\<close>

fun parseSegments :: "HL7Delimiters \<Rightarrow> nat \<Rightarrow> string list \<Rightarrow> ParseError + SegmentNode list" where
  "parseSegments d i [] = Inr []"
| "parseSegments d i (l # ls) =
     (case parseSegment l d i of
        Inl e \<Rightarrow> Inl e
      | Inr seg \<Rightarrow>
          (case parseSegments d (Suc i) ls of
             Inl e \<Rightarrow> Inl e
           | Inr segs \<Rightarrow> Inr (seg # segs)))"

definition segmentLines :: "string \<Rightarrow> string list" where
  "segmentLines rawInput =
     filter (\<lambda>line. length line > 0) (split (normalizeLineEndings (trim rawInput)) [CR])"

definition parseHL7 :: "string \<Rightarrow> ParseError + HL7Message" where
  "parseHL7 rawInput =
     (case segmentLines rawInput of
        [] \<Rightarrow> Inl \<lparr>message = ''No segments found in input'',
                   segmentIndex = None, segmentName = None, fieldIndex = None,
                   snippet = None\<rparr>
      | first # rest \<Rightarrow>
          if \<not> startsWith first ''MSH''
          then Inl \<lparr>message = ''HL7 message must start with MSH segment'',
                    segmentIndex = None, segmentName = None, fieldIndex = None,
                    snippet = Some (substring first 0 50)\<rparr>
          else
            (case extractDelimiters first of
               None \<Rightarrow> Inl \<lparr>message = ''Could not extract delimiters from MSH segment'',
                            segmentIndex = Some 0, segmentName = Some ''MSH'',
                            fieldIndex = None, snippet = Some (substring first 0 50)\<rparr>
             | Some d \<Rightarrow>
                 (case parseSegments d 1 rest of
                    Inl e \<Rightarrow> Inl e
                  | Inr segs \<Rightarrow>
                      Inr \<lparr>delimiters = d, segments = parseMSHSegment first d # segs\<rparr>)))"

text \<open>\<^verbatim>\<open>parseFieldString\<close> and \<^verbatim>\<open>reparseFieldFromString\<close> of \<^verbatim>\<open>fieldReparse.ts\<close>.\<close>

definition parseFieldString :: "string \<Rightarrow> HL7Delimiters \<Rightarrow> int \<Rightarrow> FieldNode" where
  "parseFieldString fieldString d fieldIdx = parseField fieldString d fieldIdx"

definition reparseFieldFromString :: "string \<Rightarrow> HL7Delimiters \<Rightarrow> int \<Rightarrow> FieldNode" where
  "reparseFieldFromString fieldString d fieldIdx = parseFieldString fieldString d fieldIdx"

section \<open>Serializer\<close>

definition serializeSubcomponents :: "ComponentNode \<Rightarrow> HL7Delimiters \<Rightarrow> string" where
  "serializeSubcomponents cmp d = join (map value (subcomponents cmp)) (subcomponent d)"

definition serializeComponents :: "RepeatNode \<Rightarrow> HL7Delimiters \<Rightarrow> string" where
  "serializeComponents rep d =
     join (map (\<lambda>cmp. serializeSubcomponents cmp d) (components rep)) (component d)"

definition serializeRepeats :: "FieldNode \<Rightarrow> HL7Delimiters \<Rightarrow> string" where
  "serializeRepeats fld d =
     join (map (\<lambda>rep. serializeComponents rep d) (repeats fld)) (repeat d)"

definition serializeField :: "FieldNode \<Rightarrow> HL7Delimiters \<Rightarrow> string" where
  "serializeField fld d = serializeRepeats fld d"

text \<open>
  The inner loop \<^verbatim>\<open>for (let i = lastIndex + 1; i < field.index; i++) result += delimiters.field\<close>,
  started at \<open>i\<close>, on the text written so far.
\<close>

function padGap :: "HL7Delimiters \<Rightarrow> int \<Rightarrow> int \<Rightarrow> string \<Rightarrow> string" where
  "padGap d i fieldIdx result =
     (if i < fieldIdx then padGap d (i + 1) fieldIdx (result @ field d) else result)"
  by pat_completeness auto
termination
  by (relation "measure (\<lambda>(d, i, fieldIdx, result). nat (fieldIdx - i))") auto

text \<open>
  The outer loop of both segment serializers, on the text written so far and the index of
  the field written last.
\<close>

fun emitFields :: "HL7Delimiters \<Rightarrow> string \<Rightarrow> int \<Rightarrow> FieldNode list \<Rightarrow> string" where
  "emitFields d result lastIndex [] = result"
| "emitFields d result lastIndex (fld # flds) =
     emitFields d (padGap d (lastIndex + 1) (index fld) result @ field d @ serializeField fld d)
       (index fld) flds"

text \<open>
  The array sort with the comparator \<^verbatim>\<open>(a, b) => a.index - b.index\<close> is stable, as the
  insertion sort \<^const>\<open>sort_key\<close> is.
\<close>

definition serializeMSHSegment :: "SegmentNode \<Rightarrow> HL7Delimiters \<Rightarrow> string" where
  "serializeMSHSegment seg d =
     (let result = ''MSH'' @ field d;
          result = (case find (\<lambda>f. index f = 2) (segFields seg) of
                      Some msh2Field \<Rightarrow> result @ serializeField msh2Field d
                    | None \<Rightarrow> result @ component d @ repeat d @ escape d @ subcomponent d);
          otherFields = sort_key index (filter (\<lambda>f. index f > 2) (segFields seg))
      in emitFields d result 2 otherFields)"

definition serializeSegment :: "SegmentNode \<Rightarrow> HL7Delimiters \<Rightarrow> string" where
  "serializeSegment seg d =
     (let result = name seg;
          sortedFields = sort_key index (segFields seg)
      in emitFields d result 0 sortedFields)"

definition serializeHL7 :: "HL7Message \<Rightarrow> bool \<Rightarrow> string" where
  "serializeHL7 msg includeTrailingTerminator =
     (let segs = map (\<lambda>(i, seg).
                   if name seg = ''MSH'' \<and> i = 0
                   then serializeMSHSegment seg (delimiters msg)
                   else serializeSegment seg (delimiters msg))
                 (enumerate 0 (segments msg));
          result = join segs (segment (delimiters msg))
      in if includeTrailingTerminator then result @ segment (delimiters msg) else result)"

section \<open>The words of the specification\<close>

text \<open>
  The specification describes the fields of a segment as written one after the other,
  each behind a field delimiter, with one more bare field delimiter for every index
  skipped since the field written before. This is that description, to be compared with
  the two loops of the source.
\<close>

fun spec_paddedFields :: "HL7Delimiters \<Rightarrow> int \<Rightarrow> FieldNode list \<Rightarrow> string" where
  "spec_paddedFields d prev [] = []"
| "spec_paddedFields d prev (fld # flds) =
     (if index fld > prev + 1
      then concat (replicate (nat (index fld - prev - 1)) (field d)) else [])
     @ field d @ serializeField fld d @ spec_paddedFields d (index fld) flds"

text \<open>
  The specification calls encoding-characters block the substring of the header line from
  position 5 (counted from 1) up to, and not including, the next occurrence of the field
  delimiter, which is the character at position 4. Where the field delimiter does not
  occur again the block is taken to run to the end of the line, which is what
  \<^verbatim>\<open>parseMSHSegment\<close> stores as the field of index 2.
\<close>

definition spec_encodingBlock :: "string \<Rightarrow> string" where
  "spec_encodingBlock line = takeWhile (\<lambda>c. c \<noteq> line ! 3) (drop 4 line)"


text \<open>
  The two rewritings of a text in the property of line-ending tolerance, as the test
  suite performs them: \<^verbatim>\<open>text.replace(/\r/g, '\n')\<close> and \<^verbatim>\<open>text.replace(/\r/g, '\r\n')\<close>.
\<close>

definition crToLf :: "string \<Rightarrow> string" where
  "crToLf s = map (\<lambda>c. if c = CR then LF else c) s"

definition crToCrLf :: "string \<Rightarrow> string" where
  "crToCrLf s = concat (map (\<lambda>c. if c = CR then [CR, LF] else [c]) s)"

section \<open>Splitting and joining\<close>

lemma join_Cons: "join (x # xs) sep = (if xs = [] then x else x @ sep @ join xs sep)"
  by (cases xs) simp_all

lemma split_nonempty_not_Nil: "split_nonempty sep acc s \<noteq> []"
  by (induction sep acc s rule: split_nonempty.induct) auto

lemma join_split_nonempty: "join (split_nonempty sep acc s) sep = acc @ s"
proof (induction sep acc s rule: split_nonempty.induct)
  case (1 sep acc)
  show ?case by simp
next
  case (2 sep acc c cs)
  show ?case
  proof (cases "sep \<noteq> [] \<and> prefix sep (c # cs)")
    case True
    then have "sep @ drop (length sep) (c # cs) = c # cs"
      by (metis append_eq_conv_conj prefixE)
    with True 2 show ?thesis
      by (simp add: join_Cons split_nonempty_not_Nil del: drop_Suc_Cons)
  next
    case False
    with 2 show ?thesis by auto
  qed
qed

lemma join_chars: "join (map (\<lambda>c. [c]) s) [] = s"
  by (induction s) (simp_all add: join_Cons)

lemma join_split: "join (split s sep) sep = s"
  by (simp add: split_def join_chars join_split_nonempty)

lemma serialize_parseField: "serializeField (parseField s d i) d = s"
  by (simp add: serializeField_def serializeRepeats_def serializeComponents_def
      serializeSubcomponents_def parseField_def o_def join_split)

lemma serializeField_leaf:
  "serializeField
     \<lparr>index = i, repeats = [\<lparr>components = [\<lparr>subcomponents = [\<lparr>value = v\<rparr>]\<rparr>]\<rparr>]\<rparr> d = v"
  by (simp add: serializeField_def serializeRepeats_def serializeComponents_def
      serializeSubcomponents_def)

section \<open>Field re-parsing\<close>

text \<open>
  C10. For every string, every delimiters record and every field index, serializing the
  field that \<^verbatim>\<open>reparseFieldFromString\<close> builds gives the string back, and the field carries
  the index it was given: the three nested splits followed by the three nested joins are
  the identity on strings. The delimiters may be any strings, empty ones and equal ones
  included.
\<close>

theorem reparse_serialize_identity:
  "serializeField (reparseFieldFromString s d i) d = s
   \<and> index (reparseFieldFromString s d i) = i"
  by (simp add: reparseFieldFromString_def parseFieldString_def serialize_parseField)
    (simp add: parseField_def)

theorem reparse_serialize_identity_witness:
  "serializeField
     (reparseFieldFromString ''SMITH^JOHN~DOE^JANE&SR''
        \<lparr>segment = [CR], field = ''|'', repeat = ''~'', component = ''^'',
           subcomponent = ''&'', escape = [CHR 0x5C]\<rparr> 5)
     \<lparr>segment = [CR], field = ''|'', repeat = ''~'', component = ''^'',
        subcomponent = ''&'', escape = [CHR 0x5C]\<rparr> = ''SMITH^JOHN~DOE^JANE&SR''
   \<and> index (reparseFieldFromString ''SMITH^JOHN~DOE^JANE&SR''
        \<lparr>segment = [CR], field = ''|'', repeat = ''~'', component = ''^'',
           subcomponent = ''&'', escape = [CHR 0x5C]\<rparr> 5) = 5"
  by (rule reparse_serialize_identity)

section \<open>Serializing a segment\<close>

lemma padGap_eq: "padGap d i k result = result @ concat (replicate (nat (k - i)) (field d))"
proof (induction d i k result rule: padGap.induct)
  case (1 d i k result)
  show ?case
  proof (cases "i < k")
    case True
    then have "nat (k - i) = Suc (nat (k - (i + 1)))" by simp
    with True 1 show ?thesis
      by (simp del: padGap.simps add: padGap.simps[of d i k result])
  next
    case False
    then show ?thesis by simp
  qed
qed

lemma emitFields_eq:
  "emitFields d result lastIndex flds = result @ spec_paddedFields d lastIndex flds"
proof (induction flds arbitrary: result lastIndex)
  case Nil
  show ?case by simp
next
  case (Cons fld flds)
  have "nat (index fld - (lastIndex + 1)) = nat (index fld - lastIndex - 1)" by simp
  then show ?case by (simp add: Cons padGap_eq del: padGap.simps)
qed

lemma serializeSegment_eq:
  "serializeSegment seg d = name seg @ spec_paddedFields d 0 (sort_key index (segFields seg))"
  by (simp add: serializeSegment_def emitFields_eq)

lemma serializeMSHSegment_eq:
  "serializeMSHSegment seg d =
     ''MSH'' @ field d @
     (case find (\<lambda>f. index f = 2) (segFields seg) of
        Some msh2Field \<Rightarrow> serializeField msh2Field d
      | None \<Rightarrow> component d @ repeat d @ escape d @ subcomponent d) @
     spec_paddedFields d 2 (sort_key index (filter (\<lambda>f. index f > 2) (segFields seg)))"
  by (simp add: serializeMSHSegment_def emitFields_eq split: option.splits)

text \<open>
  C4. A segment that is not the header is written as its name followed by its fields in
  ascending order of index (a stable sort of the fields the segment holds), each behind a
  field delimiter, and with bare field delimiters for the indices skipped, counted from
  index 0. A segment that holds only a field of index 5 is written as its name, four bare
  field delimiters, and then the field delimiter and the value of that field.
\<close>

theorem serializeSegment_gap_padding:
  "serializeSegment seg d = name seg @ spec_paddedFields d 0 (sort_key index (segFields seg))
   \<and> sorted (map index (sort_key index (segFields seg)))
   \<and> mset (sort_key index (segFields seg)) = mset (segFields seg)
   \<and> serializeSegment \<lparr>name = nm, segFields = [\<lparr>index = 5, repeats = rs\<rparr>]\<rparr> d
       = nm @ (field d @ field d @ field d @ field d) @ field d
            @ serializeField \<lparr>index = 5, repeats = rs\<rparr> d"
  by (simp add: serializeSegment_eq eval_nat_numeral)

theorem serializeSegment_gap_padding_witness:
  "serializeSegment
     \<lparr>name = ''PID'', segFields = [\<lparr>index = 5, repeats =
        [\<lparr>components = [\<lparr>subcomponents = [\<lparr>value = ''DOE''\<rparr>]\<rparr>]\<rparr>]\<rparr>]\<rparr>
     \<lparr>segment = [CR], field = ''|'', repeat = ''~'', component = ''^'',
        subcomponent = ''&'', escape = [CHR 0x5C]\<rparr> = ''PID|||||DOE''"
  using serializeSegment_gap_padding [of "\<lparr>name = ''PID'', segFields = [\<lparr>index = 5, repeats =
        [\<lparr>components = [\<lparr>subcomponents = [\<lparr>value = ''DOE''\<rparr>]\<rparr>]\<rparr>]\<rparr>]\<rparr>"
     "\<lparr>segment = [CR], field = ''|'', repeat = ''~'', component = ''^'',
        subcomponent = ''&'', escape = [CHR 0x5C]\<rparr>"]
  by (simp add: serializeField_leaf)

section \<open>Serializing the header\<close>

lemma find_index2_without_index1:
  "find (\<lambda>f. index f = 2) (filter (\<lambda>f. index f \<noteq> 1) xs) = find (\<lambda>f. index f = 2) xs"
  by (induction xs) auto

lemma filter_above2_without_index1:
  "filter (\<lambda>f. index f \<noteq> 1 \<and> 2 < index f) xs = filter (\<lambda>f. 2 < index f) xs"
  by (induction xs) auto

lemma serializeMSHSegment_drop_index1:
  "serializeMSHSegment (seg\<lparr>segFields := filter (\<lambda>f. index f \<noteq> 1) (segFields seg)\<rparr>) d
     = serializeMSHSegment seg d"
  by (simp add: serializeMSHSegment_eq find_index2_without_index1
      filter_above2_without_index1)

lemma map_enumerate_later:
  "map (\<lambda>(i, seg). if name seg = ''MSH'' \<and> i = 0 then A seg else B seg) (enumerate (Suc n) xs)
     = map B xs"
  by (induction xs arbitrary: n) auto

lemma serializeHL7_header_first:
  assumes "segments msg = seg # rest" "name seg = ''MSH''"
  shows "serializeHL7 msg b =
           join (serializeMSHSegment seg (delimiters msg)
                 # map (\<lambda>s. serializeSegment s (delimiters msg)) rest)
             (segment (delimiters msg))
           @ (if b then segment (delimiters msg) else [])"
  using assms by (simp add: serializeHL7_def map_enumerate_later del: join.simps)

text \<open>
  C3 as the code has it. The field of index 2 is not written as one literal value: the
  header segment is written as the header name, the field delimiter, and then what
  \<^verbatim>\<open>serializeField\<close> gives for the first field of index 2, that is its leaf values joined
  again by the subcomponent, component and repeat delimiters of the record (for a field
  of one leaf, as the parser builds it, this is the value of the leaf, character for
  character); when no field has index 2, the component, repeat, escape and subcomponent
  delimiters of the record are written instead, in this order. Then come the fields of
  index above 2 in ascending order, with the gaps padded from index 2. A field of index 1
  is never written: removing every such field from the segment leaves the text unchanged.
  \<^verbatim>\<open>serializeHL7\<close> writes the segment at position 0 in this way when its name is the header
  name, and every later segment as an ordinary one.
\<close>

theorem serializeMSHSegment_header:
  "serializeMSHSegment seg d =
     ''MSH'' @ field d @
     (case find (\<lambda>f. index f = 2) (segFields seg) of
        Some msh2Field \<Rightarrow> serializeField msh2Field d
      | None \<Rightarrow> component d @ repeat d @ escape d @ subcomponent d) @
     spec_paddedFields d 2 (sort_key index (filter (\<lambda>f. index f > 2) (segFields seg)))
   \<and> serializeField
        \<lparr>index = 2, repeats = [\<lparr>components = [\<lparr>subcomponents = [\<lparr>value = v\<rparr>]\<rparr>]\<rparr>]\<rparr> d = v
   \<and> sorted (map index (sort_key index (filter (\<lambda>f. index f > 2) (segFields seg))))
   \<and> serializeMSHSegment (seg\<lparr>segFields := filter (\<lambda>f. index f \<noteq> 1) (segFields seg)\<rparr>) d
        = serializeMSHSegment seg d
   \<and> (segments msg = seg # rest \<and> name seg = ''MSH'' \<longrightarrow>
        serializeHL7 msg b =
          join (serializeMSHSegment seg (delimiters msg)
                # map (\<lambda>s. serializeSegment s (delimiters msg)) rest)
            (segment (delimiters msg))
          @ (if b then segment (delimiters msg) else []))"
  using serializeMSHSegment_eq serializeField_leaf serializeMSHSegment_drop_index1
    serializeHL7_header_first by (simp del: join.simps)

theorem serializeMSHSegment_header_witness:
  "serializeHL7
     \<lparr>delimiters = \<lparr>segment = [CR], field = ''|'', repeat = ''~'', component = ''^'',
        subcomponent = ''&'', escape = ''e''\<rparr>,
      segments = [\<lparr>name = ''MSH'', segFields =
         [\<lparr>index = 5, repeats = [\<lparr>components = [\<lparr>subcomponents = [\<lparr>value = ''X''\<rparr>]\<rparr>]\<rparr>]\<rparr>,
          \<lparr>index = 1, repeats = [\<lparr>components = [\<lparr>subcomponents = [\<lparr>value = ''|''\<rparr>]\<rparr>]\<rparr>]\<rparr>,
          \<lparr>index = 2, repeats = [\<lparr>components =
             [\<lparr>subcomponents = [\<lparr>value = ''p''\<rparr>, \<lparr>value = ''q''\<rparr>]\<rparr>]\<rparr>]\<rparr>,
          \<lparr>index = 3, repeats = [\<lparr>components = [\<lparr>subcomponents = [\<lparr>value = ''A''\<rparr>]\<rparr>]\<rparr>]\<rparr>]\<rparr>]\<rparr>
     False = ''MSH|p&q|A||X''"
  using serializeMSHSegment_header [of "\<lparr>name = ''MSH'', segFields =
         [\<lparr>index = 5, repeats = [\<lparr>components = [\<lparr>subcomponents = [\<lparr>value = ''X''\<rparr>]\<rparr>]\<rparr>]\<rparr>,
          \<lparr>index = 1, repeats = [\<lparr>components = [\<lparr>subcomponents = [\<lparr>value = ''|''\<rparr>]\<rparr>]\<rparr>]\<rparr>,
          \<lparr>index = 2, repeats = [\<lparr>components =
             [\<lparr>subcomponents = [\<lparr>value = ''p''\<rparr>, \<lparr>value = ''q''\<rparr>]\<rparr>]\<rparr>]\<rparr>,
          \<lparr>index = 3, repeats = [\<lparr>components = [\<lparr>subcomponents = [\<lparr>value = ''A''\<rparr>]\<rparr>]\<rparr>]\<rparr>]\<rparr>"
      "\<lparr>segment = [CR], field = ''|'', repeat = ''~'', component = ''^'',
        subcomponent = ''&'', escape = ''e''\<rparr>" _
      "\<lparr>delimiters = \<lparr>segment = [CR], field = ''|'', repeat = ''~'', component = ''^'',
        subcomponent = ''&'', escape = ''e''\<rparr>,
      segments = [\<lparr>name = ''MSH'', segFields =
         [\<lparr>index = 5, repeats = [\<lparr>components = [\<lparr>subcomponents = [\<lparr>value = ''X''\<rparr>]\<rparr>]\<rparr>]\<rparr>,
          \<lparr>index = 1, repeats = [\<lparr>components = [\<lparr>subcomponents = [\<lparr>value = ''|''\<rparr>]\<rparr>]\<rparr>]\<rparr>,
          \<lparr>index = 2, repeats = [\<lparr>components =
             [\<lparr>subcomponents = [\<lparr>value = ''p''\<rparr>, \<lparr>value = ''q''\<rparr>]\<rparr>]\<rparr>]\<rparr>,
          \<lparr>index = 3, repeats = [\<lparr>components = [\<lparr>subcomponents = [\<lparr>value = ''A''\<rparr>]\<rparr>]\<rparr>]\<rparr>]\<rparr>]\<rparr>"
      "[]" False]
  by (simp add: serializeField_def serializeRepeats_def serializeComponents_def
      serializeSubcomponents_def)

text \<open>
  The input against C3 as it is stated: a header whose field of index 2 holds the two
  leaves \<open>p\<close> and \<open>q\<close> in one component, as an edit of that cell to \<^verbatim>\<open>p&q\<close> leaves it. The
  text written has the subcomponent delimiter between them, which is no part of either
  leaf value.
\<close>

theorem serializeMSHSegment_rejoins_index2:
  "serializeHL7
     \<lparr>delimiters = \<lparr>segment = [CR], field = ''|'', repeat = ''~'', component = ''^'',
        subcomponent = ''&'', escape = ''e''\<rparr>,
      segments = [\<lparr>name = ''MSH'', segFields =
         [\<lparr>index = 1, repeats = [\<lparr>components = [\<lparr>subcomponents = [\<lparr>value = ''|''\<rparr>]\<rparr>]\<rparr>]\<rparr>,
          \<lparr>index = 2, repeats = [\<lparr>components =
             [\<lparr>subcomponents = [\<lparr>value = ''p''\<rparr>, \<lparr>value = ''q''\<rparr>]\<rparr>]\<rparr>]\<rparr>]\<rparr>]\<rparr>
     False = ''MSH|p&q''"
  by code_simp

section \<open>The delimiter resolver\<close>

lemma index_from_char:
  "index_from [c] s k =
     (if c \<in> set s then int (k + length (takeWhile (\<lambda>x. x \<noteq> c) s)) else - 1)"
  by (induction s arbitrary: k) auto

lemma substring_take_drop:
  "a \<le> b \<Longrightarrow> b \<le> length s \<Longrightarrow> substring s (int a) (int b) = take (b - a) (drop a s)"
  by (simp add: substring_def Let_def min_def max_def nat_diff_distrib')

lemma substring_from_drop: "a \<le> length s \<Longrightarrow> substring_from s (int a) = drop a s"
  by (simp add: substring_from_def substring_take_drop)

lemma substring_minus_one: "a \<le> length s \<Longrightarrow> substring s (int a) (- 1) = take a s"
  by (simp add: substring_def Let_def min_def max_def)

lemma takeWhile_take_length: "takeWhile P xs = take (length (takeWhile P xs)) xs"
  by (induction xs) auto

lemma header_encodingChars_found:
  assumes "4 \<le> length line" "line ! 3 \<in> set (drop 4 line)"
  shows "substring line 4 (indexOf line [line ! 3] 4) = spec_encodingBlock line"
proof -
  let ?n = "length (takeWhile (\<lambda>x. x \<noteq> line ! 3) (drop 4 line))"
  have n: "?n \<le> length (drop 4 line)" by (rule length_takeWhile_le)
  have "indexOf line [line ! 3] 4 = int (4 + ?n)"
    using assms by (simp add: indexOf_def index_from_char min_def)
  moreover have "substring line (int 4) (int (4 + ?n)) = take (4 + ?n - 4) (drop 4 line)"
    using n assms by (intro substring_take_drop) simp_all
  ultimately show ?thesis
    using takeWhile_take_length[of "\<lambda>x. x \<noteq> line ! 3" "drop 4 line"]
    by (simp add: spec_encodingBlock_def)
qed

lemma header_encodingChars_missing:
  assumes "4 \<le> length line" "line ! 3 \<notin> set (drop 4 line)"
  shows "substring line 4 (indexOf line [line ! 3] 4) = take 4 line"
  using assms substring_minus_one[of 4 line]
  by (simp add: indexOf_def index_from_char)

lemma short_block_has_delimiter:
  assumes "8 \<le> length line" "length (spec_encodingBlock line) < 4"
  shows "line ! 3 \<in> set (drop 4 line)"
proof (rule ccontr)
  assume "line ! 3 \<notin> set (drop 4 line)"
  then have "spec_encodingBlock line = drop 4 line"
    by (auto simp: spec_encodingBlock_def)
  with assms show False by simp
qed

lemma extractDelimiters_positional:
  assumes "startsWith line ''MSH''" "4 \<le> length line" "line ! 3 \<in> set (drop 4 line)"
    "4 \<le> length (spec_encodingBlock line)"
  shows "extractDelimiters line =
           Some \<lparr>segment = [CR], field = [line ! 3],
                 repeat = [spec_encodingBlock line ! 1],
                 component = [spec_encodingBlock line ! 0],
                 subcomponent = [spec_encodingBlock line ! 3],
                 escape = [spec_encodingBlock line ! 2]\<rparr>"
proof -
  have e: "substring line 4 (indexOf line [line ! 3] 4) = spec_encodingBlock line"
    using assms by (intro header_encodingChars_found) simp_all
  have "length (spec_encodingBlock line) \<le> length (drop 4 line)"
    unfolding spec_encodingBlock_def by (rule length_takeWhile_le)
  with assms have "8 \<le> length line" by simp
  with assms e show ?thesis
    by (simp add: extractDelimiters_def Let_def)
qed

lemma extractDelimiters_field:
  "extractDelimiters line = Some d \<Longrightarrow> field d = [line ! 3] \<and> segment d = [CR]"
  by (auto simp: extractDelimiters_def Let_def split: if_splits)

lemma extractDelimiters_Some:
  "extractDelimiters line = Some d \<Longrightarrow> startsWith line ''MSH'' \<and> 8 \<le> length line"
  by (auto simp: extractDelimiters_def Let_def split: if_splits)


text \<open>
  C7. A header line that the resolver accepts (it starts with the header name and has at
  least 8 characters) and whose encoding-characters block has fewer than 4 characters is
  resolved, not rejected: the slots the block fills are taken from it, in the order
  component, repeat, escape, and every slot it does not reach gets its default, \<open>^\<close>,
  \<open>~\<close>, the backslash and \<open>&\<close>. The subcomponent slot is the fourth, so it is always the
  default here.
\<close>

theorem extractDelimiters_short_block:
  assumes "startsWith line ''MSH''" "8 \<le> length line" "length (spec_encodingBlock line) < 4"
  shows "extractDelimiters line =
           Some \<lparr>segment = [CR], field = [line ! 3],
                 repeat = (if 1 < length (spec_encodingBlock line)
                           then [spec_encodingBlock line ! 1] else ''~''),
                 component = (if 0 < length (spec_encodingBlock line)
                              then [spec_encodingBlock line ! 0] else ''^''),
                 subcomponent = ''&'',
                 escape = (if 2 < length (spec_encodingBlock line)
                           then [spec_encodingBlock line ! 2] else [CHR 0x5C])\<rparr>"
proof -
  have "substring line 4 (indexOf line [line ! 3] 4) = spec_encodingBlock line"
    using assms by (intro header_encodingChars_found short_block_has_delimiter) simp_all
  with assms show ?thesis
    by (simp add: extractDelimiters_def charOr_def Let_def)
qed


theorem extractDelimiters_short_block_witness:
  "extractDelimiters ''MSH|!@|SEND|FAC'' =
     Some \<lparr>segment = [CR], field = ''|'', repeat = ''@'', component = ''!'',
           subcomponent = ''&'', escape = [CHR 0x5C]\<rparr>"
  using extractDelimiters_short_block [of "''MSH|!@|SEND|FAC''"]
  by (simp add: startsWith_def spec_encodingBlock_def)

text \<open>
  C6 fails on the code for a header line without a second field delimiter. The line
  \<^verbatim>\<open>MSH#!@$%\<close> has the 8 characters that the resolver asks for, its character at position 4
  is \<open>#\<close> and its encoding-characters block is \<^verbatim>\<open>!@$%\<close>, but the resolver takes the four
  characters \<^verbatim>\<open>MSH#\<close> for the block: \<^verbatim>\<open>indexOf\<close> returns \<open>-1\<close>, and \<^verbatim>\<open>substring(4, -1)\<close> is
  the text in front of position 4. Where a second field delimiter ends a block of at least
  4 characters the slots are read from the block in the order component, repeat, escape,
  subcomponent (lemma \<open>extractDelimiters_positional\<close>).
\<close>

theorem extractDelimiters_unterminated_block:
  "extractDelimiters ''MSH#!@$%'' =
     Some \<lparr>segment = [CR], field = ''#'', repeat = ''S'', component = ''M'',
           subcomponent = ''#'', escape = ''H''\<rparr>
   \<and> spec_encodingBlock ''MSH#!@$%'' = ''!@$%''"
  by code_simp


text \<open>
  The parser accepts this header: the message records \<open>M\<close>, \<open>S\<close>, \<open>H\<close> and \<open>#\<close> as its
  component, repeat, escape and subcomponent delimiters next to a field of index 2 that
  holds \<^verbatim>\<open>!@$%\<close>.
\<close>

theorem extractDelimiters_unterminated_block_witness:
  "parseHL7 ''MSH#!@$%'' =
     Inr \<lparr>delimiters = \<lparr>segment = [CR], field = ''#'', repeat = ''S'', component = ''M'',
             subcomponent = ''#'', escape = ''H''\<rparr>,
          segments =
            [\<lparr>name = ''MSH'', segFields =
               [\<lparr>index = 1, repeats = [\<lparr>components = [\<lparr>subcomponents = [\<lparr>value = ''#''\<rparr>]\<rparr>]\<rparr>]\<rparr>,
                \<lparr>index = 2, repeats = [\<lparr>components =
                   [\<lparr>subcomponents = [\<lparr>value = ''!@$%''\<rparr>]\<rparr>]\<rparr>]\<rparr>]\<rparr>]\<rparr>"
proof -
  have l: "segmentLines ''MSH#!@$%'' = [''MSH#!@$%'']" by code_simp
  have m: "parseMSHSegment ''MSH#!@$%''
        \<lparr>segment = [CR], field = ''#'', repeat = ''S'', component = ''M'',
             subcomponent = ''#'', escape = ''H''\<rparr> =
      \<lparr>name = ''MSH'', segFields =
               [\<lparr>index = 1, repeats = [\<lparr>components = [\<lparr>subcomponents = [\<lparr>value = ''#''\<rparr>]\<rparr>]\<rparr>]\<rparr>,
                \<lparr>index = 2, repeats = [\<lparr>components =
                   [\<lparr>subcomponents = [\<lparr>value = ''!@$%''\<rparr>]\<rparr>]\<rparr>]\<rparr>]\<rparr>"
    by code_simp
  from extractDelimiters_unterminated_block l m show ?thesis
    by (simp add: parseHL7_def startsWith_def)
qed

section \<open>Parsing the header\<close>

lemma parseHL7_success:
  assumes "parseHL7 T = Inr M"
  obtains hdr later d segs where "segmentLines T = hdr # later"
    "extractDelimiters hdr = Some d" "parseSegments d 1 later = Inr segs"
    "M = \<lparr>delimiters = d, segments = parseMSHSegment hdr d # segs\<rparr>"
  using assms
  by (auto simp: parseHL7_def split: list.splits if_splits option.splits sum.splits)

lemma parseFieldsFrom_index: "f \<in> set (parseFieldsFrom d k ps) \<Longrightarrow> k \<le> index f"
proof (induction ps arbitrary: k)
  case Nil
  then show ?case by simp
next
  case (Cons p ps)
  then show ?case by (fastforce simp: parseField_def)
qed

lemma takeWhile_shorter:
  "c \<in> set xs \<Longrightarrow> length (takeWhile (\<lambda>x. x \<noteq> c) xs) < length xs"
  by (induction xs) auto

lemma parseMSHSegment_shape:
  assumes "extractDelimiters hdr = Some d"
  shows "parseMSHSegment hdr d =
     \<lparr>name = ''MSH'',
      segFields =
        \<lparr>index = 1,
         repeats = [\<lparr>components = [\<lparr>subcomponents = [\<lparr>value = [hdr ! 3]\<rparr>]\<rparr>]\<rparr>]\<rparr>
        # \<lparr>index = 2,
           repeats = [\<lparr>components = [\<lparr>subcomponents = [\<lparr>value = spec_encodingBlock hdr\<rparr>]\<rparr>]\<rparr>]\<rparr>
        # (if hdr ! 3 \<in> set (drop 4 hdr)
           then parseFieldsFrom d 3
                  (split (drop (5 + length (spec_encodingBlock hdr)) hdr) [hdr ! 3])
           else [])\<rparr>"
proof -
  from assms have fd: "field d = [hdr ! 3]" and len: "8 \<le> length hdr"
    using extractDelimiters_field extractDelimiters_Some by blast+
  let ?after = "drop 4 hdr"
  let ?n = "length (spec_encodingBlock hdr)"
  have after: "substring_from hdr 4 = ?after"
    using len substring_from_drop[of 4 hdr] by simp
  have n: "?n \<le> length ?after"
    unfolding spec_encodingBlock_def by (rule length_takeWhile_le)
  show ?thesis
  proof (cases "hdr ! 3 \<in> set ?after")
    case True
    then have pos: "indexOf ?after [hdr ! 3] 0 = int ?n"
      by (simp add: indexOf_def index_from_char spec_encodingBlock_def)
    have enc: "substring ?after 0 (int ?n) = spec_encodingBlock hdr"
      using substring_take_drop[of 0 ?n ?after] n
        takeWhile_take_length[of "\<lambda>x. x \<noteq> hdr ! 3" ?after]
      by (simp add: spec_encodingBlock_def)
    have "?n < length ?after"
      using True unfolding spec_encodingBlock_def by (rule takeWhile_shorter)
    then have "substring_from ?after (int (Suc ?n)) = drop (Suc ?n) ?after"
      by (intro substring_from_drop) simp
    moreover have "int (Suc ?n) = int ?n + 1" by simp
    moreover have "drop (Suc ?n) ?after = drop (5 + ?n) hdr" by (simp add: add.commute)
    ultimately have rest: "substring_from ?after (int ?n + 1) = drop (5 + ?n) hdr"
      by metis
    show ?thesis
      using True by (simp add: parseMSHSegment_def Let_def after fd pos enc rest)
  next
    case False
    then have pos: "indexOf ?after [hdr ! 3] 0 = - 1"
      by (simp add: indexOf_def index_from_char)
    from False have "spec_encodingBlock hdr = ?after"
      by (auto simp: spec_encodingBlock_def)
    then show ?thesis
      using False by (simp add: parseMSHSegment_def Let_def after fd pos)
  qed
qed


text \<open>
  C2. When the first line of the input is a header that the resolver accepts, the segment
  built from it starts with a field of index 1 that is one repeat of one component of one
  subcomponent, whose value is the field delimiter (the character at position 4 of the
  line), followed by a field of index 2 of the same shape whose value is the
  encoding-characters block of the line as it stands, not split at any delimiter. Every
  further field has an index of at least 3. When the whole input parses, this segment is
  segment 0 of the message and the resolved delimiters are those of the message.
\<close>

theorem parseMSHSegment_header_fields:
  assumes "segmentLines T = hdr # later" "extractDelimiters hdr = Some d"
  shows "field d = [hdr ! 3]
     \<and> (\<exists>others. parseMSHSegment hdr d =
          \<lparr>name = ''MSH'',
           segFields =
             \<lparr>index = 1,
              repeats = [\<lparr>components = [\<lparr>subcomponents = [\<lparr>value = field d\<rparr>]\<rparr>]\<rparr>]\<rparr>
             # \<lparr>index = 2,
                repeats = [\<lparr>components =
                   [\<lparr>subcomponents = [\<lparr>value = spec_encodingBlock hdr\<rparr>]\<rparr>]\<rparr>]\<rparr>
             # others\<rparr>
          \<and> (\<forall>f \<in> set others. 3 \<le> index f))
     \<and> (\<forall>M. parseHL7 T = Inr M \<longrightarrow>
          delimiters M = d \<and> segments M \<noteq> [] \<and> hd (segments M) = parseMSHSegment hdr d)"
proof -
  have fd: "field d = [hdr ! 3]"
    using assms(2) extractDelimiters_field by blast
  have "\<forall>f \<in> set (if hdr ! 3 \<in> set (drop 4 hdr)
           then parseFieldsFrom d 3
                  (split (drop (5 + length (spec_encodingBlock hdr)) hdr) [hdr ! 3])
           else []). 3 \<le> index f"
    using parseFieldsFrom_index by auto
  then have shape: "\<exists>others. parseMSHSegment hdr d =
          \<lparr>name = ''MSH'',
           segFields =
             \<lparr>index = 1,
              repeats = [\<lparr>components = [\<lparr>subcomponents = [\<lparr>value = field d\<rparr>]\<rparr>]\<rparr>]\<rparr>
             # \<lparr>index = 2,
                repeats = [\<lparr>components =
                   [\<lparr>subcomponents = [\<lparr>value = spec_encodingBlock hdr\<rparr>]\<rparr>]\<rparr>]\<rparr>
             # others\<rparr>
          \<and> (\<forall>f \<in> set others. 3 \<le> index f)"
    using parseMSHSegment_shape[OF assms(2)] fd by simp
  have "\<forall>M. parseHL7 T = Inr M \<longrightarrow>
          delimiters M = d \<and> segments M \<noteq> [] \<and> hd (segments M) = parseMSHSegment hdr d"
  proof (intro allI impI)
    fix M assume "parseHL7 T = Inr M"
    then obtain hdr' later' d' segs where
      "segmentLines T = hdr' # later'" "extractDelimiters hdr' = Some d'"
      "M = \<lparr>delimiters = d', segments = parseMSHSegment hdr' d' # segs\<rparr>"
      by (rule parseHL7_success)
    with assms show "delimiters M = d \<and> segments M \<noteq> [] \<and> hd (segments M) = parseMSHSegment hdr d"
      by simp
  qed
  with fd shape show ?thesis by blast
qed

theorem parseMSHSegment_header_fields_witness:
  "segmentLines (''MSH|^~'' @ [CHR 0x5C] @ ''&|LAB'' @ [CR, LF] @ ''PID|1'') 
      = [''MSH|^~'' @ [CHR 0x5C] @ ''&|LAB'', ''PID|1'']
   \<and> extractDelimiters (''MSH|^~'' @ [CHR 0x5C] @ ''&|LAB'') =
       Some \<lparr>segment = [CR], field = ''|'', repeat = ''~'', component = ''^'',
             subcomponent = ''&'', escape = [CHR 0x5C]\<rparr>
   \<and> parseMSHSegment (''MSH|^~'' @ [CHR 0x5C] @ ''&|LAB'')
        \<lparr>segment = [CR], field = ''|'', repeat = ''~'', component = ''^'',
             subcomponent = ''&'', escape = [CHR 0x5C]\<rparr> =
       \<lparr>name = ''MSH'',
        segFields =
          [\<lparr>index = 1, repeats = [\<lparr>components = [\<lparr>subcomponents = [\<lparr>value = ''|''\<rparr>]\<rparr>]\<rparr>]\<rparr>,
           \<lparr>index = 2, repeats = [\<lparr>components =
              [\<lparr>subcomponents = [\<lparr>value = ''^~'' @ [CHR 0x5C] @ ''&''\<rparr>]\<rparr>]\<rparr>]\<rparr>,
           \<lparr>index = 3, repeats = [\<lparr>components = [\<lparr>subcomponents = [\<lparr>value = ''LAB''\<rparr>]\<rparr>]\<rparr>]\<rparr>]\<rparr>"
proof -
  let ?hdr = "''MSH|^~'' @ [CHR 0x5C] @ ''&|LAB''"
  let ?T = "?hdr @ [CR, LF] @ ''PID|1''"
  let ?d = "\<lparr>segment = [CR], field = ''|'', repeat = ''~'', component = ''^'',
             subcomponent = ''&'', escape = [CHR 0x5C]\<rparr>"
  have h1: "segmentLines ?T = ?hdr # [''PID|1'']" by code_simp
  have h2: "extractDelimiters ?hdr = Some ?d" by code_simp
  have h3: "parseMSHSegment ?hdr ?d =
       \<lparr>name = ''MSH'',
        segFields =
          [\<lparr>index = 1, repeats = [\<lparr>components = [\<lparr>subcomponents = [\<lparr>value = ''|''\<rparr>]\<rparr>]\<rparr>]\<rparr>,
           \<lparr>index = 2, repeats = [\<lparr>components =
              [\<lparr>subcomponents = [\<lparr>value = ''^~'' @ [CHR 0x5C] @ ''&''\<rparr>]\<rparr>]\<rparr>]\<rparr>,
           \<lparr>index = 3, repeats = [\<lparr>components = [\<lparr>subcomponents = [\<lparr>value = ''LAB''\<rparr>]\<rparr>]\<rparr>]\<rparr>]\<rparr>"
    by code_simp
  from parseMSHSegment_header_fields [OF h1 h2] h1 h2 h3 show ?thesis by simp
qed

section \<open>Failures of the parser\<close>

lemma substring_prefix: "substring s 0 (int n) = take n s"
  by (simp add: substring_def Let_def min_def max_def)

lemma parseSegments_first_error:
  assumes "k < length ls"
    "\<forall>j<k. \<exists>seg. parseSegment (ls ! j) d (i + j) = Inr seg"
    "parseSegment (ls ! k) d (i + k) = Inl e"
  shows "parseSegments d i ls = Inl e"
  using assms
proof (induction ls arbitrary: i k)
  case Nil
  then show ?case by simp
next
  case (Cons l ls)
  show ?case
  proof (cases k)
    case 0
    with Cons.prems show ?thesis by simp
  next
    case (Suc k')
    from Cons.prems(2) Suc obtain seg where seg: "parseSegment l d i = Inr seg"
      by fastforce
    have "parseSegments d (Suc i) ls = Inl e"
    proof (rule Cons.IH)
      show "k' < length ls" using Cons.prems(1) Suc by simp
      show "\<forall>j<k'. \<exists>seg. parseSegment (ls ! j) d (Suc i + j) = Inr seg"
      proof (intro allI impI)
        fix j assume "j < k'"
        then have "Suc j < k" using Suc by simp
        with Cons.prems(2) have "\<exists>seg. parseSegment ((l # ls) ! Suc j) d (i + Suc j) = Inr seg"
          by blast
        then show "\<exists>seg. parseSegment (ls ! j) d (Suc i + j) = Inr seg" by simp
      qed
      show "parseSegment (ls ! k') d (Suc i + k') = Inl e"
        using Cons.prems(3) Suc by simp
    qed
    with seg show ?thesis by simp
  qed
qed

lemma split_not_Nil: "sep \<noteq> [] \<Longrightarrow> split s sep \<noteq> []"
  by (simp add: split_def split_nonempty_not_Nil)

lemma parseSegment_reject:
  assumes "field d \<noteq> []" "\<not> validSegmentName (hd (split l (field d)))"
  shows "parseSegment l d i =
     Inl (if hd (split l (field d)) = []
          then \<lparr>message = ''Empty or invalid segment'',
                 segmentIndex = Some i, segmentName = None, fieldIndex = None,
                 snippet = Some (take 50 l)\<rparr>
          else \<lparr>message = ''Invalid segment name: '' @ [CHR 0x22]
                   @ hd (split l (field d)) @ [CHR 0x22],
                 segmentIndex = Some i, segmentName = Some (hd (split l (field d))),
                 fieldIndex = None, snippet = Some (take 50 l)\<rparr>)"
  using assms substring_prefix[of l 50] split_not_Nil[of "field d" l]
  by (simp add: parseSegment_def Let_def)


text \<open>
  C5. The empty string is rejected with the error of an input without segments, and so is
  every input that has no non-empty line. The input \<^verbatim>\<open>PID|1||12345\<close>, and every input
  whose first line does not start with the header name, is rejected with the error of
  the missing header. When the header is accepted and a later line is the first whose
  leading token does not match one upper-case letter followed by two upper-case letters
  or digits, the parse is rejected with the error of that line, which carries the index
  of the line among the non-empty lines, the leading token as segment name and the first
  50 characters of the line; for an empty leading token the message reads
  \<^verbatim>\<open>Empty or invalid segment\<close> and no name is carried. The result is one error or one
  message, never both.
\<close>

theorem parseHL7_failures:
  "parseHL7 [] =
     Inl \<lparr>message = ''No segments found in input'', segmentIndex = None,
          segmentName = None, fieldIndex = None, snippet = None\<rparr>
   \<and> parseHL7 ''PID|1||12345'' =
     Inl \<lparr>message = ''HL7 message must start with MSH segment'', segmentIndex = None,
          segmentName = None, fieldIndex = None, snippet = Some ''PID|1||12345''\<rparr>
   \<and> (segmentLines T = [] \<longrightarrow>
        parseHL7 T =
          Inl \<lparr>message = ''No segments found in input'', segmentIndex = None,
               segmentName = None, fieldIndex = None, snippet = None\<rparr>)
   \<and> (segmentLines T = hdr # later \<and> \<not> startsWith hdr ''MSH'' \<longrightarrow>
        parseHL7 T =
          Inl \<lparr>message = ''HL7 message must start with MSH segment'', segmentIndex = None,
               segmentName = None, fieldIndex = None, snippet = Some (take 50 hdr)\<rparr>)
   \<and> (segmentLines T = hdr # later \<and> extractDelimiters hdr = Some d \<and> k < length later
        \<and> (\<forall>j<k. \<exists>seg. parseSegment (later ! j) d (Suc j) = Inr seg)
        \<and> \<not> validSegmentName (hd (split (later ! k) (field d))) \<longrightarrow>
        parseHL7 T =
          Inl (if hd (split (later ! k) (field d)) = []
               then \<lparr>message = ''Empty or invalid segment'',
                      segmentIndex = Some (Suc k), segmentName = None, fieldIndex = None,
                      snippet = Some (take 50 (later ! k))\<rparr>
               else \<lparr>message = ''Invalid segment name: '' @ [CHR 0x22]
                        @ hd (split (later ! k) (field d)) @ [CHR 0x22],
                      segmentIndex = Some (Suc k),
                      segmentName = Some (hd (split (later ! k) (field d))),
                      fieldIndex = None, snippet = Some (take 50 (later ! k))\<rparr>))
   \<and> (\<forall>e. parseHL7 T = Inl e \<longrightarrow> (\<forall>M. parseHL7 T \<noteq> Inr M))"
proof (intro conjI impI)
  show "parseHL7 [] =
     Inl \<lparr>message = ''No segments found in input'', segmentIndex = None,
          segmentName = None, fieldIndex = None, snippet = None\<rparr>"
    by code_simp
  show "parseHL7 ''PID|1||12345'' =
     Inl \<lparr>message = ''HL7 message must start with MSH segment'', segmentIndex = None,
          segmentName = None, fieldIndex = None, snippet = Some ''PID|1||12345''\<rparr>"
    by code_simp
  show "parseHL7 T =
          Inl \<lparr>message = ''No segments found in input'', segmentIndex = None,
               segmentName = None, fieldIndex = None, snippet = None\<rparr>"
    if "segmentLines T = []"
    using that by (simp add: parseHL7_def)
  show "parseHL7 T =
          Inl \<lparr>message = ''HL7 message must start with MSH segment'', segmentIndex = None,
               segmentName = None, fieldIndex = None, snippet = Some (take 50 hdr)\<rparr>"
    if "segmentLines T = hdr # later \<and> \<not> startsWith hdr ''MSH''"
    using that substring_prefix[of hdr 50] by (simp add: parseHL7_def)
  show "\<forall>e. parseHL7 T = Inl e \<longrightarrow> (\<forall>M. parseHL7 T \<noteq> Inr M)" by simp
  let ?nm = "hd (split (later ! k) (field d))"
  let ?err = "if ?nm = []
               then \<lparr>message = ''Empty or invalid segment'',
                      segmentIndex = Some (Suc k), segmentName = None, fieldIndex = None,
                      snippet = Some (take 50 (later ! k))\<rparr>
               else \<lparr>message = ''Invalid segment name: '' @ [CHR 0x22] @ ?nm @ [CHR 0x22],
                      segmentIndex = Some (Suc k), segmentName = Some ?nm,
                      fieldIndex = None, snippet = Some (take 50 (later ! k))\<rparr>"
  show "parseHL7 T = Inl ?err"
    if h: "segmentLines T = hdr # later \<and> extractDelimiters hdr = Some d \<and> k < length later
        \<and> (\<forall>j<k. \<exists>seg. parseSegment (later ! j) d (Suc j) = Inr seg)
        \<and> \<not> validSegmentName ?nm"
  proof -
    from h have fd: "field d \<noteq> []" and sw: "startsWith hdr ''MSH''"
      using extractDelimiters_field extractDelimiters_Some by fastforce+
    from h fd have "parseSegment (later ! k) d (Suc k) = Inl ?err"
      using parseSegment_reject[of d "later ! k" "Suc k"] by blast
    with h have "parseSegments d 1 later = Inl ?err"
      using parseSegments_first_error[of k later d 1 ?err] by simp
    with h sw show ?thesis by (simp add: parseHL7_def)
  qed
qed

theorem parseHL7_failures_witness:
  "segmentLines (''MSH|^~e&|LAB'' @ [CR] @ ''XY|1'') = [''MSH|^~e&|LAB'', ''XY|1'']
   \<and> extractDelimiters ''MSH|^~e&|LAB'' =
       Some \<lparr>segment = [CR], field = ''|'', repeat = ''~'', component = ''^'',
             subcomponent = ''&'', escape = ''e''\<rparr>
   \<and> \<not> validSegmentName (hd (split ''XY|1'' ''|''))
   \<and> parseHL7 (''MSH|^~e&|LAB'' @ [CR] @ ''XY|1'') =
       Inl \<lparr>message = ''Invalid segment name: '' @ [CHR 0x22] @ ''XY'' @ [CHR 0x22],
            segmentIndex = Some 1, segmentName = Some ''XY'', fieldIndex = None,
            snippet = Some ''XY|1''\<rparr>"
proof -
  let ?d = "\<lparr>segment = [CR], field = ''|'', repeat = ''~'', component = ''^'',
             subcomponent = ''&'', escape = ''e''\<rparr>"
  have h1: "segmentLines (''MSH|^~e&|LAB'' @ [CR] @ ''XY|1'') = [''MSH|^~e&|LAB'', ''XY|1'']"
    by code_simp
  have h2: "extractDelimiters ''MSH|^~e&|LAB'' = Some ?d" by code_simp
  have h3: "split ''XY|1'' ''|'' = [''XY'', ''1'']" by code_simp
  have h4: "\<not> validSegmentName ''XY''" by simp
  from parseHL7_failures [of "''MSH|^~e&|LAB'' @ [CR] @ ''XY|1''" "''MSH|^~e&|LAB''" "[''XY|1'']" ?d 0]
    h1 h2 h3 h4
  show ?thesis by simp
qed


section \<open>Containers of a parsed message\<close>




lemma parseSegment_fields:
  "parseSegment l d i = Inr seg \<Longrightarrow>
     seg = \<lparr>name = hd (split l (field d)),
            segFields = parseFieldsFrom d 1 (tl (split l (field d)))\<rparr>"
  by (auto simp: parseSegment_def Let_def split: if_splits)


lemma split_char_absent: "c \<notin> set s \<Longrightarrow> split_nonempty [c] acc s = [acc @ s]"
  by (induction s arbitrary: acc) auto










section \<open>Line endings\<close>

lemma split_char_Cons:
  "split_nonempty [c] acc (x # xs) =
     (if x = c then acc # split_nonempty [c] [] xs else split_nonempty [c] (acc @ [x]) xs)"
  by simp

lemma lines_crlf_collapse:
  "filter (\<lambda>line. line \<noteq> []) (split_nonempty [CR] acc (replace_lf (replace_crlf s)))
     = filter (\<lambda>line. line \<noteq> []) (split_nonempty [CR] acc (replace_lf s))"
proof (induction s arbitrary: acc rule: replace_crlf.induct)
  case (1 c e cs)
  show ?case
  proof (cases "c = CR \<and> e = LF")
    case True
    with 1(1) show ?thesis by (simp add: replace_lf_def)
  next
    case False
    with 1(2) have IH: "\<And>acc. filter (\<lambda>line. line \<noteq> [])
          (split_nonempty [CR] acc (replace_lf (replace_crlf (e # cs))))
        = filter (\<lambda>line. line \<noteq> []) (split_nonempty [CR] acc (replace_lf (e # cs)))"
      by blast
    have l: "replace_lf (x # xs) = (if x = LF then CR else x) # replace_lf xs" for x xs
      by (simp add: replace_lf_def)
    from False have "replace_crlf (c # e # cs) = c # replace_crlf (e # cs)" by auto
    then show ?thesis
      using IH by (simp only: l split_char_Cons) simp
  qed
qed simp_all

lemma segmentLines_flat:
  "segmentLines T =
     filter (\<lambda>line. line \<noteq> []) (split_nonempty [CR] [] (replace_lf (trim T)))"
  by (simp add: segmentLines_def split_def normalizeLineEndings_def lines_crlf_collapse)

lemma dropWhile_expand:
  assumes "\<And>c. P c \<Longrightarrow> \<forall>x \<in> set (h c). P x"
    "\<And>c. \<not> P c \<Longrightarrow> h c \<noteq> [] \<and> \<not> P (hd (h c))"
  shows "dropWhile P (concat (map h s)) = concat (map h (dropWhile P s))"
proof (induction s)
  case Nil
  show ?case by simp
next
  case (Cons c s)
  show ?case
  proof (cases "P c")
    case True
    with assms(1) have "\<forall>x \<in> set (h c). P x" by blast
    with True Cons show ?thesis by (simp add: dropWhile_append)
  next
    case False
    with assms(2) obtain y ys where "h c = y # ys" "\<not> P y"
      by (metis list.exhaust_sel)
    with False show ?thesis by simp
  qed
qed

lemma trim_expand:
  assumes "\<And>c. isWhiteSpace c \<Longrightarrow> \<forall>x \<in> set (h c). isWhiteSpace x"
    "\<And>c. \<not> isWhiteSpace c \<Longrightarrow> h c = [c]"
  shows "trim (concat (map h s)) = concat (map h (trim s))"
proof -
  have fwd: "dropWhile isWhiteSpace (concat (map h u)) = concat (map h (dropWhile isWhiteSpace u))"
    for u using assms by (intro dropWhile_expand) auto
  have bwd: "dropWhile isWhiteSpace (concat (map (\<lambda>x. rev (h x)) u))
        = concat (map (\<lambda>x. rev (h x)) (dropWhile isWhiteSpace u))"
    for u using assms by (intro dropWhile_expand) auto
  show ?thesis
    by (simp add: trim_def fwd rev_concat rev_map bwd o_def)
qed

lemma trim_crToCrLf: "trim (crToCrLf s) = crToCrLf (trim s)"
  unfolding crToCrLf_def by (rule trim_expand) (auto simp: isWhiteSpace_def)

lemma trim_crToLf: "trim (crToLf s) = crToLf (trim s)"
proof -
  have "isWhiteSpace \<circ> (\<lambda>c. if c = CR then LF else c) = isWhiteSpace"
    by (auto simp: isWhiteSpace_def fun_eq_iff)
  then show ?thesis
    by (simp add: trim_def crToLf_def dropWhile_map rev_map)
qed

lemma replace_lf_crToLf: "replace_lf (crToLf s) = replace_lf s"
  by (simp add: replace_lf_def crToLf_def)

lemma lines_crToCrLf:
  "filter (\<lambda>line. line \<noteq> []) (split_nonempty [CR] acc (replace_lf (crToCrLf s)))
     = filter (\<lambda>line. line \<noteq> []) (split_nonempty [CR] acc (replace_lf s))"
proof (induction s arbitrary: acc)
  case Nil
  show ?case by (simp add: crToCrLf_def)
next
  case (Cons x s)
  have e: "crToCrLf (y # ys) = (if y = CR then [CR, LF] else [y]) @ crToCrLf ys" for y ys
    by (simp add: crToCrLf_def)
  have l: "replace_lf (y # ys) = (if y = LF then CR else y) # replace_lf ys" for y ys
    by (simp add: replace_lf_def)
  show ?case
  proof (cases "x = CR")
    case True
    then show ?thesis using Cons[of "[]"] by (simp add: e l)
  next
    case False
    then show ?thesis using Cons by (simp add: e l)
  qed
qed

lemma segmentLines_crToLf: "segmentLines (crToLf T) = segmentLines T"
  by (simp add: segmentLines_flat trim_crToLf replace_lf_crToLf)

lemma segmentLines_crToCrLf: "segmentLines (crToCrLf T) = segmentLines T"
  by (simp add: segmentLines_flat trim_crToCrLf lines_crToCrLf)

lemma parseHL7_cong: "segmentLines A = segmentLines B \<Longrightarrow> parseHL7 A = parseHL7 B"
  by (simp add: parseHL7_def)


text \<open>
  C9. Replacing every carriage return of a text by a line feed, or by a carriage return
  and a line feed, does not change what \<^verbatim>\<open>parseHL7\<close> returns: the same message when the
  text parses (delimiters record included, since the segment delimiter recorded is always
  the carriage return), and the same error when it does not. This holds for every text,
  also for one that mixes the line endings.
\<close>

theorem parseHL7_line_endings: "parseHL7 (crToLf T) = parseHL7 T \<and> parseHL7 (crToCrLf T) = parseHL7 T"
  using parseHL7_cong segmentLines_crToLf segmentLines_crToCrLf by blast

theorem parseHL7_line_endings_witness:
  "crToLf (''MSH|^~e&|LAB'' @ [CR] @ ''PID|1'') = ''MSH|^~e&|LAB'' @ [LF] @ ''PID|1''
   \<and> crToCrLf (''MSH|^~e&|LAB'' @ [CR] @ ''PID|1'') = ''MSH|^~e&|LAB'' @ [CR, LF] @ ''PID|1''
   \<and> parseHL7 (''MSH|^~e&|LAB'' @ [LF] @ ''PID|1'')
       = parseHL7 (''MSH|^~e&|LAB'' @ [CR] @ ''PID|1'')
   \<and> parseHL7 (''MSH|^~e&|LAB'' @ [CR, LF] @ ''PID|1'')
       = parseHL7 (''MSH|^~e&|LAB'' @ [CR] @ ''PID|1'')"
proof -
  have a: "crToLf (''MSH|^~e&|LAB'' @ [CR] @ ''PID|1'') = ''MSH|^~e&|LAB'' @ [LF] @ ''PID|1''"
    by (simp add: crToLf_def)
  have b: "crToCrLf (''MSH|^~e&|LAB'' @ [CR] @ ''PID|1'')
      = ''MSH|^~e&|LAB'' @ [CR, LF] @ ''PID|1''"
    by (simp add: crToCrLf_def)
  from parseHL7_line_endings [of "''MSH|^~e&|LAB'' @ [CR] @ ''PID|1''"] show ?thesis
    unfolding a b using a b by simp
qed

section \<open>Round trip\<close>

lemma join_Cons_concat: "join (x # xs) sep = x @ concat (map (\<lambda>p. sep @ p) xs)"
  by (induction xs arbitrary: x) (simp_all add: join_Cons)

lemma parseFieldsFrom_sorted: "sorted (map index (parseFieldsFrom d k ps))"
proof (induction ps arbitrary: k)
  case Nil
  show ?case by simp
next
  case (Cons p ps)
  have "k \<le> index f" if "f \<in> set (parseFieldsFrom d (k + 1) ps)" for f
    using parseFieldsFrom_index[OF that] by simp
  with Cons show ?case by (auto simp: parseField_def)
qed

lemma paddedFields_parsed:
  "spec_paddedFields d (k - 1) (parseFieldsFrom d k ps) = concat (map (\<lambda>p. field d @ p) ps)"
proof (induction ps arbitrary: k)
  case Nil
  show ?case by simp
next
  case (Cons p ps)
  have i: "index (parseField p d k) = k" by (simp add: parseField_def)
  from Cons[of "k + 1"] show ?case
    by (simp add: i serialize_parseField)
qed

lemma serializeSegment_parseSegment:
  assumes "parseSegment l d i = Inr seg"
  shows "serializeSegment seg d = l"
proof -
  let ?parts = "split l (field d)"
  from assms have ne: "?parts \<noteq> []"
    by (auto simp: parseSegment_def Let_def split: if_splits)
  from assms have seg: "seg = \<lparr>name = hd ?parts, segFields = parseFieldsFrom d 1 (tl ?parts)\<rparr>"
    by (rule parseSegment_fields)
  have "serializeSegment seg d = hd ?parts @ concat (map (\<lambda>p. field d @ p) (tl ?parts))"
    using paddedFields_parsed[of d 1 "tl ?parts"]
    by (simp add: seg serializeSegment_eq sort_key_id_if_sorted parseFieldsFrom_sorted)
  also have "\<dots> = join (hd ?parts # tl ?parts) (field d)"
    by (simp only: join_Cons_concat)
  also have "\<dots> = l" using ne by (simp add: join_split)
  finally show ?thesis .
qed

lemma serializeSegments_parseSegments:
  "parseSegments d i ls = Inr segs \<Longrightarrow> map (\<lambda>s. serializeSegment s d) segs = ls"
proof (induction ls arbitrary: i segs)
  case Nil
  then show ?case by simp
next
  case (Cons l ls)
  then show ?case
    by (auto split: sum.splits simp: serializeSegment_parseSegment)
qed

lemma filter_above2_parsed:
  "filter (\<lambda>f. 2 < index f) (parseFieldsFrom d 3 ps) = parseFieldsFrom d 3 ps"
proof -
  have "\<forall>f \<in> set (parseFieldsFrom d 3 ps). 2 < index f"
    using parseFieldsFrom_index[of _ d 3 ps] by fastforce
  then show ?thesis by simp
qed

lemma concat_sep_join: "xs \<noteq> [] \<Longrightarrow> concat (map (\<lambda>p. sep @ p) xs) = sep @ join xs sep"
  by (cases xs) (simp_all add: join_Cons_concat)

lemma dropWhile_to_delimiter:
  "c \<in> set xs \<Longrightarrow>
     xs = takeWhile (\<lambda>x. x \<noteq> c) xs @ c # drop (Suc (length (takeWhile (\<lambda>x. x \<noteq> c) xs))) xs"
  by (induction xs) auto

lemma serializeMSHSegment_parseMSHSegment:
  assumes "extractDelimiters hdr = Some d"
  shows "serializeMSHSegment (parseMSHSegment hdr d) d = hdr"
proof -
  from assms have fd: "field d = [hdr ! 3]" and len: "8 \<le> length hdr"
    and sw: "startsWith hdr ''MSH''"
    using extractDelimiters_field extractDelimiters_Some by blast+
  let ?c = "hdr ! 3"
  let ?n = "length (spec_encodingBlock hdr)"
  from sw have "take 3 hdr = ''MSH''"
    by (auto simp: startsWith_def prefix_def)
  moreover have "hdr = take 3 hdr @ hdr ! 3 # drop 4 hdr"
    using len id_take_nth_drop[of 3 hdr] by simp
  ultimately have hdr: "hdr = ''MSH'' @ ?c # drop 4 hdr" by metis
  show ?thesis
  proof (cases "?c \<in> set (drop 4 hdr)")
    case True
    let ?rest = "drop (5 + ?n) hdr"
    have r: "drop (Suc ?n) (drop 4 hdr) = ?rest" by (simp add: add.commute)
    have "drop 4 hdr = spec_encodingBlock hdr @ ?c # ?rest"
      using dropWhile_to_delimiter[OF True] unfolding spec_encodingBlock_def r[unfolded spec_encodingBlock_def] .
    with hdr have whole: "''MSH'' @ [?c] @ spec_encodingBlock hdr @ [?c] @ ?rest = hdr"
      by simp
    have "serializeMSHSegment (parseMSHSegment hdr d) d =
            ''MSH'' @ [?c] @ spec_encodingBlock hdr
              @ concat (map (\<lambda>p. [?c] @ p) (split ?rest [?c]))"
      using True paddedFields_parsed[of d 3 "split ?rest [?c]"]
      by (simp add: parseMSHSegment_shape[OF assms] serializeMSHSegment_eq serializeField_leaf
          filter_above2_parsed sort_key_id_if_sorted parseFieldsFrom_sorted fd)
    also have "\<dots> = ''MSH'' @ [?c] @ spec_encodingBlock hdr @ [?c] @ ?rest"
      using concat_sep_join[of "split ?rest [?c]" "[?c]"] split_not_Nil[of "[?c]" ?rest]
      by (simp add: join_split)
    finally show ?thesis using whole by simp
  next
    case False
    then have "spec_encodingBlock hdr = drop 4 hdr"
      by (auto simp: spec_encodingBlock_def)
    with hdr have whole: "''MSH'' @ [?c] @ spec_encodingBlock hdr = hdr" by simp
    have "serializeMSHSegment (parseMSHSegment hdr d) d =
            ''MSH'' @ [?c] @ spec_encodingBlock hdr"
      using False
      by (simp add: parseMSHSegment_shape[OF assms] serializeMSHSegment_eq serializeField_leaf fd)
    with whole show ?thesis by simp
  qed
qed

lemma serializeHL7_parseHL7:
  assumes "parseHL7 T = Inr M"
  shows "serializeHL7 M b = join (segmentLines T) [CR] @ (if b then [CR] else [])"
proof -
  from assms obtain hdr later d segs where
    ls: "segmentLines T = hdr # later" and
    d: "extractDelimiters hdr = Some d" and
    segs: "parseSegments d 1 later = Inr segs" and
    M: "M = \<lparr>delimiters = d, segments = parseMSHSegment hdr d # segs\<rparr>"
    by (rule parseHL7_success)
  have sd: "segment d = [CR]" using d extractDelimiters_field by blast
  have nm: "name (parseMSHSegment hdr d) = ''MSH''"
    by (simp add: parseMSHSegment_def Let_def)
  have "serializeHL7 M b =
          join (serializeMSHSegment (parseMSHSegment hdr d) (delimiters M)
                 # map (\<lambda>s. serializeSegment s (delimiters M)) segs)
             (segment (delimiters M))
           @ (if b then segment (delimiters M) else [])"
    using M nm by (intro serializeHL7_header_first) simp_all
  then show ?thesis
    using M by (simp add: sd ls serializeMSHSegment_parseMSHSegment[OF d]
        serializeSegments_parseSegments[OF segs] del: join.simps)
qed

lemma split_char_pieces_free:
  "c \<notin> set acc \<Longrightarrow> p \<in> set (split_nonempty [c] acc s) \<Longrightarrow> c \<notin> set p"
proof (induction s arbitrary: acc)
  case Nil
  then show ?case by simp
next
  case (Cons x s)
  show ?case
  proof (cases "x = c")
    case True
    with Cons.prems have "p = acc \<or> p \<in> set (split_nonempty [c] [] s)" by simp
    then show ?thesis using Cons.IH[of "[]"] Cons.prems(1) by auto
  next
    case False
    with Cons.prems have "p \<in> set (split_nonempty [c] (acc @ [x]) s)" by simp
    then show ?thesis using Cons.IH[of "acc @ [x]"] Cons.prems(1) False by auto
  qed
qed

lemma split_char_pieces_subset:
  "p \<in> set (split_nonempty [c] acc s) \<Longrightarrow> set p \<subseteq> set acc \<union> set s"
proof (induction s arbitrary: acc)
  case Nil
  then show ?case by simp
next
  case (Cons x s)
  show ?case
  proof (cases "x = c")
    case True
    with Cons.prems have "p = acc \<or> p \<in> set (split_nonempty [c] [] s)" by simp
    then show ?thesis using Cons.IH[of "[]"] by auto
  next
    case False
    with Cons.prems have "p \<in> set (split_nonempty [c] (acc @ [x]) s)" by simp
    then show ?thesis using Cons.IH[of "acc @ [x]"] by auto
  qed
qed

lemma split_char_last:
  "s \<noteq> [] \<Longrightarrow> last s \<noteq> c \<Longrightarrow>
     last (split_nonempty [c] acc s) \<noteq> [] \<and> last (last (split_nonempty [c] acc s)) = last s"
proof (induction s arbitrary: acc)
  case Nil
  then show ?case by simp
next
  case (Cons x s)
  show ?case
  proof (cases "s = []")
    case True
    with Cons.prems show ?thesis by simp
  next
    case False
    with Cons.prems have "last s \<noteq> c" by simp
    with False Cons.IH have IH: "last (split_nonempty [c] a s) \<noteq> [] \<and>
        last (last (split_nonempty [c] a s)) = last s" for a
      by blast
    show ?thesis
    proof (cases "x = c")
      case True
      then show ?thesis using IH[of "[]"] False by (simp add: split_nonempty_not_Nil)
    next
      case neq: False
      then show ?thesis using IH[of "acc @ [x]"] False by simp
    qed
  qed
qed

lemma last_filter_keep: "xs \<noteq> [] \<Longrightarrow> P (last xs) \<Longrightarrow> last (filter P xs) = last xs"
  by (induction xs rule: rev_induct) simp_all

lemma split_char_append_delimiter:
  "c \<notin> set l \<Longrightarrow>
     split_nonempty [c] acc (l @ c # rest) = (acc @ l) # split_nonempty [c] [] rest"
  by (induction l arbitrary: acc) auto

lemma split_char_join:
  assumes "ls \<noteq> []" "\<forall>l \<in> set ls. c \<notin> set l"
  shows "split_nonempty [c] [] (join ls [c]) = ls"
  using assms
proof (induction ls)
  case Nil
  then show ?case by simp
next
  case (Cons l ls)
  show ?case
  proof (cases "ls = []")
    case True
    with Cons.prems show ?thesis by (simp add: split_char_absent)
  next
    case False
    with Cons have "split_nonempty [c] [] (join ls [c]) = ls" by simp
    with False Cons.prems show ?thesis
      by (simp add: join_Cons split_char_append_delimiter)
  qed
qed

lemma trim_last: "trim s \<noteq> [] \<Longrightarrow> \<not> isWhiteSpace (last (trim s))"
  unfolding trim_def using hd_dropWhile[of isWhiteSpace "rev (dropWhile isWhiteSpace s)"]
  by (simp add: last_rev)

lemma trim_clean:
  assumes "s \<noteq> []" "\<not> isWhiteSpace (hd s)" "\<not> isWhiteSpace (last s)"
  shows "trim s = s" "trim (s @ [CR]) = s"
proof -
  from assms obtain x xs where s: "s = x # xs" "\<not> isWhiteSpace x" by (cases s) auto
  from assms have "rev s \<noteq> []" "\<not> isWhiteSpace (hd (rev s))" by (simp_all add: hd_rev)
  then obtain y ys where r: "rev s = y # ys" "\<not> isWhiteSpace y" by (cases "rev s") auto
  have ws: "isWhiteSpace CR" by (simp add: isWhiteSpace_def)
  have "rev (dropWhile isWhiteSpace (rev s)) = s" using r by (metis dropWhile.simps(2) rev_rev_ident)
  then show "trim s = s" using s by (simp add: trim_def)
  have "dropWhile isWhiteSpace (s @ [CR]) = s @ [CR]" using s by simp
  moreover have "dropWhile isWhiteSpace (rev (s @ [CR])) = rev s" using r ws by simp
  ultimately show "trim (s @ [CR]) = s" by (simp add: trim_def)
qed

lemma replace_lf_id: "LF \<notin> set s \<Longrightarrow> replace_lf s = s"
  by (induction s) (auto simp: replace_lf_def)

lemma replace_lf_no_LF: "LF \<notin> set (replace_lf s)"
  by (auto simp: replace_lf_def)

lemma replace_lf_last: "s \<noteq> [] \<Longrightarrow> last s \<noteq> LF \<Longrightarrow> last (replace_lf s) = last s"
  by (simp add: replace_lf_def last_map)

lemma segmentLines_clean:
  assumes "l \<in> set (segmentLines T)"
  shows "l \<noteq> []" "CR \<notin> set l" "LF \<notin> set l"
proof -
  from assms have p: "l \<in> set (split_nonempty [CR] [] (replace_lf (trim T)))" and "l \<noteq> []"
    by (simp_all add: segmentLines_flat)
  then show "l \<noteq> []" by simp
  from p show "CR \<notin> set l" using split_char_pieces_free[of CR "[]" l] by simp
  from p have "set l \<subseteq> set (replace_lf (trim T))"
    using split_char_pieces_subset[of l CR "[]"] by simp
  then show "LF \<notin> set l" using replace_lf_no_LF by blast
qed

lemma segmentLines_last:
  assumes "segmentLines T \<noteq> []"
  shows "\<not> isWhiteSpace (last (last (segmentLines T)))"
proof -
  let ?u = "replace_lf (trim T)"
  let ?pieces = "split_nonempty [CR] [] ?u"
  have t: "trim T \<noteq> []"
  proof
    assume "trim T = []"
    then have "segmentLines T = []" by (simp add: segmentLines_flat replace_lf_def)
    with assms show False by simp
  qed
  then have nws: "\<not> isWhiteSpace (last (trim T))" by (rule trim_last)
  then have "last (trim T) \<noteq> LF" "last (trim T) \<noteq> CR" by (auto simp: isWhiteSpace_def)
  with t have u: "?u \<noteq> []" "last ?u = last (trim T)" "last ?u \<noteq> CR"
    by (simp_all add: replace_lf_last) (simp add: replace_lf_def)
  then have "last ?pieces \<noteq> []" "last (last ?pieces) = last ?u"
    using split_char_last[of ?u CR "[]"] by simp_all
  moreover from this have "last (filter (\<lambda>line. line \<noteq> []) ?pieces) = last ?pieces"
    by (intro last_filter_keep) (simp_all add: split_nonempty_not_Nil)
  ultimately show ?thesis using nws u by (simp add: segmentLines_flat)
qed

lemma join_last:
  "ls \<noteq> [] \<Longrightarrow> last ls \<noteq> [] \<Longrightarrow> join ls sep \<noteq> [] \<and> last (join ls sep) = last (last ls)"
proof (induction ls)
  case Nil
  then show ?case by simp
next
  case (Cons l ls)
  then show ?case by (cases "ls = []") (simp_all add: join_Cons)
qed

lemma join_hd: "ls \<noteq> [] \<Longrightarrow> hd ls \<noteq> [] \<Longrightarrow> hd (join ls sep) = hd (hd ls)"
  by (cases ls) (simp_all add: join_Cons)

lemma join_set: "set (join ls [c]) \<subseteq> insert c (\<Union> (set ` set ls))"
  by (induction ls) (auto simp: join_Cons split: if_splits)

lemma segmentLines_of_joined:
  assumes "segmentLines T = hdr # later" "startsWith hdr ''MSH''"
  shows "segmentLines (join (segmentLines T) [CR] @ (if b then [CR] else [])) = segmentLines T"
proof -
  let ?ls = "segmentLines T"
  let ?j = "join ?ls [CR]"
  have ne: "?ls \<noteq> []" using assms by simp
  have clean: "\<forall>l \<in> set ?ls. l \<noteq> [] \<and> CR \<notin> set l \<and> LF \<notin> set l"
    using segmentLines_clean by blast
  then have lastne: "last ?ls \<noteq> []" using ne last_in_set by blast
  from assms have "hd hdr = CHR ''M''" "hdr \<noteq> []"
    by (auto simp: startsWith_def prefix_def)
  then have h: "\<not> isWhiteSpace (hd ?j)"
    using assms(1) join_hd[of ?ls "[CR]"] by (simp add: isWhiteSpace_def)
  have l: "?j \<noteq> []" "\<not> isWhiteSpace (last ?j)"
    using join_last[OF ne lastne, of "[CR]"] segmentLines_last[OF ne] by simp_all
  have tr: "trim (?j @ (if b then [CR] else [])) = ?j"
    using trim_clean[OF l(1) h l(2)] by simp
  have "LF \<notin> set ?j" using join_set[of ?ls CR] clean by auto
  then have "replace_lf ?j = ?j" by (rule replace_lf_id)
  moreover have "split_nonempty [CR] [] ?j = ?ls"
    using ne clean by (intro split_char_join) simp_all
  moreover have "filter (\<lambda>line. line \<noteq> []) ?ls = ?ls" using clean by simp
  ultimately show ?thesis
    by (simp add: segmentLines_flat[of "?j @ (if b then [CR] else [])"] tr del: join.simps)
qed


text \<open>
  C1. When a text parses to a message, serializing that message and parsing the result
  succeeds and gives the very same message: the same delimiters record, the same segments
  in the same order, and in every segment the same fields with the same repeats,
  components, subcomponents and leaf values. This holds with the trailing segment
  delimiter, which is the default, and without it.
\<close>

theorem parseHL7_round_trip:
  assumes "parseHL7 T = Inr M"
  shows "parseHL7 (serializeHL7 M True) = Inr M \<and> parseHL7 (serializeHL7 M False) = Inr M"
proof -
  from assms obtain hdr later d segs where
    ls: "segmentLines T = hdr # later" and d: "extractDelimiters hdr = Some d"
    by (rule parseHL7_success)
  from d have sw: "startsWith hdr ''MSH''" using extractDelimiters_Some by blast
  have "segmentLines (serializeHL7 M b) = segmentLines T" for b
    using serializeHL7_parseHL7[OF assms, of b] segmentLines_of_joined[OF ls sw, of b] by simp
  then have "parseHL7 (serializeHL7 M b) = parseHL7 T" for b
    by (rule parseHL7_cong)
  with assms show ?thesis by simp
qed

theorem parseHL7_round_trip_witness:
  "parseHL7 (''MSH|^~e&|LAB'' @ [CR, LF] @ ''PID|1||A^B~C&D'' @ [LF]) =
     Inr \<lparr>delimiters = \<lparr>segment = [CR], field = ''|'', repeat = ''~'', component = ''^'',
             subcomponent = ''&'', escape = ''e''\<rparr>,
          segments =
            [\<lparr>name = ''MSH'', segFields =
               [\<lparr>index = 1, repeats = [\<lparr>components = [\<lparr>subcomponents = [\<lparr>value = ''|''\<rparr>]\<rparr>]\<rparr>]\<rparr>,
                \<lparr>index = 2, repeats = [\<lparr>components = [\<lparr>subcomponents = [\<lparr>value = ''^~e&''\<rparr>]\<rparr>]\<rparr>]\<rparr>,
                \<lparr>index = 3, repeats = [\<lparr>components = [\<lparr>subcomponents = [\<lparr>value = ''LAB''\<rparr>]\<rparr>]\<rparr>]\<rparr>]\<rparr>,
             \<lparr>name = ''PID'', segFields =
               [\<lparr>index = 1, repeats = [\<lparr>components = [\<lparr>subcomponents = [\<lparr>value = ''1''\<rparr>]\<rparr>]\<rparr>]\<rparr>,
                \<lparr>index = 2, repeats = [\<lparr>components = [\<lparr>subcomponents = [\<lparr>value = []\<rparr>]\<rparr>]\<rparr>]\<rparr>,
                \<lparr>index = 3, repeats =
                  [\<lparr>components = [\<lparr>subcomponents = [\<lparr>value = ''A''\<rparr>]\<rparr>,
                                  \<lparr>subcomponents = [\<lparr>value = ''B''\<rparr>]\<rparr>]\<rparr>,
                   \<lparr>components = [\<lparr>subcomponents = [\<lparr>value = ''C''\<rparr>, \<lparr>value = ''D''\<rparr>]\<rparr>]\<rparr>]\<rparr>]\<rparr>]\<rparr>
   \<and> parseHL7 (''MSH|^~e&|LAB'' @ [CR] @ ''PID|1||A^B~C&D'' @ [CR]) =
       parseHL7 (''MSH|^~e&|LAB'' @ [CR, LF] @ ''PID|1||A^B~C&D'' @ [LF])"
proof -
  let ?T = "''MSH|^~e&|LAB'' @ [CR, LF] @ ''PID|1||A^B~C&D'' @ [LF]"
  let ?M = "\<lparr>delimiters = \<lparr>segment = [CR], field = ''|'', repeat = ''~'', component = ''^'',
             subcomponent = ''&'', escape = ''e''\<rparr>,
          segments =
            [\<lparr>name = ''MSH'', segFields =
               [\<lparr>index = 1, repeats = [\<lparr>components = [\<lparr>subcomponents = [\<lparr>value = ''|''\<rparr>]\<rparr>]\<rparr>]\<rparr>,
                \<lparr>index = 2, repeats = [\<lparr>components = [\<lparr>subcomponents = [\<lparr>value = ''^~e&''\<rparr>]\<rparr>]\<rparr>]\<rparr>,
                \<lparr>index = 3, repeats = [\<lparr>components = [\<lparr>subcomponents = [\<lparr>value = ''LAB''\<rparr>]\<rparr>]\<rparr>]\<rparr>]\<rparr>,
             \<lparr>name = ''PID'', segFields =
               [\<lparr>index = 1, repeats = [\<lparr>components = [\<lparr>subcomponents = [\<lparr>value = ''1''\<rparr>]\<rparr>]\<rparr>]\<rparr>,
                \<lparr>index = 2, repeats = [\<lparr>components = [\<lparr>subcomponents = [\<lparr>value = []\<rparr>]\<rparr>]\<rparr>]\<rparr>,
                \<lparr>index = 3, repeats =
                  [\<lparr>components = [\<lparr>subcomponents = [\<lparr>value = ''A''\<rparr>]\<rparr>,
                                  \<lparr>subcomponents = [\<lparr>value = ''B''\<rparr>]\<rparr>]\<rparr>,
                   \<lparr>components = [\<lparr>subcomponents = [\<lparr>value = ''C''\<rparr>, \<lparr>value = ''D''\<rparr>]\<rparr>]\<rparr>]\<rparr>]\<rparr>]\<rparr>"
  have h: "parseHL7 ?T = Inr ?M" by code_simp
  have s: "serializeHL7 ?M True = ''MSH|^~e&|LAB'' @ [CR] @ ''PID|1||A^B~C&D'' @ [CR]"
    by code_simp
  from parseHL7_round_trip [OF h] have "parseHL7 (serializeHL7 ?M True) = Inr ?M" by blast
  with h s show ?thesis by simp
qed


end
